theory Spec2Isabelle
  imports Main
begin

section \<open>Strings and characters\<close>

text \<open>
  The script \<^verbatim>\<open>scripts/generate_katex_spec_todos.py\<close> works on Python \<^verbatim>\<open>str\<close> values.
  They are modelled as \<^typ>\<open>string\<close>: a text is the list of the bytes of its UTF-8 encoding,
  so every ASCII character is one \<^typ>\<open>char\<close> and a code point beyond ASCII is a run of
  \<^typ>\<open>char\<close>s none of which is an ASCII character. All character classes the script uses
  (\<^verbatim>\<open>[\\\"']\<close>, \<^verbatim>\<open>[^a-zA-Z0-9]\<close>, \<^verbatim>\<open>[^"]\<close>, the underscore of \<^verbatim>\<open>strip\<close>) are
  ASCII classes or complements of ASCII classes, so they select the same parts of a text in
  both readings.
\<close>

abbreviation BACKSLASH :: char where "BACKSLASH \<equiv> CHR 0x5C"
abbreviation DQUOTE :: char where "DQUOTE \<equiv> CHR 0x22"
abbreviation SQUOTE :: char where "SQUOTE \<equiv> CHR 0x27"
abbreviation NEWLINE :: char where "NEWLINE \<equiv> CHR 0x0A"

definition is_lower :: "char \<Rightarrow> bool" where
  \<comment> \<open>the range \<^verbatim>\<open>a-z\<close>\<close>
  "is_lower c = (c \<in> set ''abcdefghijklmnopqrstuvwxyz'')"

definition is_upper :: "char \<Rightarrow> bool" where
  \<comment> \<open>the range \<^verbatim>\<open>A-Z\<close>\<close>
  "is_upper c = (c \<in> set ''ABCDEFGHIJKLMNOPQRSTUVWXYZ'')"

definition is_digit :: "char \<Rightarrow> bool" where
  \<comment> \<open>the range \<^verbatim>\<open>0-9\<close>\<close>
  "is_digit c = (c \<in> set ''0123456789'')"

definition is_alnum :: "char \<Rightarrow> bool" where
  \<comment> \<open>the class \<^verbatim>\<open>[a-zA-Z0-9]\<close>\<close>
  "is_alnum c = (is_lower c \<or> is_upper c \<or> is_digit c)"

definition isalpha :: "char \<Rightarrow> bool" where
  \<comment> \<open>\<^verbatim>\<open>str.isalpha\<close> on one ASCII character; \<^verbatim>\<open>snakeify\<close> calls it on a character
      of \<^verbatim>\<open>[a-z0-9]\<close> only (lemma \<open>snake_core_first\<close> below)\<close>
  "isalpha c = (is_lower c \<or> is_upper c)"

definition lower_char :: "char \<Rightarrow> char" where
  "lower_char c =
     (case map_of (zip ''ABCDEFGHIJKLMNOPQRSTUVWXYZ'' ''abcdefghijklmnopqrstuvwxyz'') c of
        None \<Rightarrow> c
      | Some d \<Rightarrow> d)"

definition lower :: "string \<Rightarrow> string" where
  \<comment> \<open>\<^verbatim>\<open>str.lower\<close>; \<^verbatim>\<open>snakeify\<close> calls it on a text over \<^verbatim>\<open>[a-zA-Z0-9_]\<close> only\<close>
  "lower s = map lower_char s"

definition strip_underscores :: "string \<Rightarrow> string" where
  \<comment> \<open>\<^verbatim>\<open>s.strip("_")\<close>\<close>
  "strip_underscores s =
     rev (dropWhile (\<lambda>c. c = CHR ''_'') (rev (dropWhile (\<lambda>c. c = CHR ''_'') s)))"

fun str_nat :: "nat \<Rightarrow> string" where
  \<comment> \<open>the decimal text of a non-negative integer, as an f-string renders it\<close>
  "str_nat n =
     (if n < 10 then [''0123456789'' ! n]
      else str_nat (n div 10) @ [''0123456789'' ! (n mod 10)])"

declare str_nat.simps [simp del]

fun join :: "string \<Rightarrow> string list \<Rightarrow> string" where
  \<comment> \<open>\<^verbatim>\<open>sep.join(xs)\<close>\<close>
  "join sep [] = []"
| "join sep [x] = x"
| "join sep (x # y # ys) = x @ sep @ join sep (y # ys)"

definition line_boundary :: "string \<Rightarrow> nat" where
  \<comment> \<open>the length of the line boundary \<^verbatim>\<open>str.splitlines\<close> sees at the start of the text, 0 when
      there is none: CR LF, LF, CR, VT, FF, FS, GS, RS, and U+0085, U+2028, U+2029 in UTF-8\<close>
  "line_boundary s =
     (if take 2 s = [CHR 0x0D, CHR 0x0A] then 2
      else if s \<noteq> [] \<and>
              hd s \<in> set [CHR 0x0A, CHR 0x0D, CHR 0x0B, CHR 0x0C, CHR 0x1C, CHR 0x1D, CHR 0x1E]
        then 1
      else if take 2 s = [CHR 0xC2, CHR 0x85] then 2
      else if take 3 s = [CHR 0xE2, CHR 0x80, CHR 0xA8] \<or>
              take 3 s = [CHR 0xE2, CHR 0x80, CHR 0xA9] then 3
      else 0)"

function splitlines_from :: "string \<Rightarrow> string \<Rightarrow> string list" where
  "splitlines_from cur s =
     (if s = [] then (if cur = [] then [] else [cur])
      else if line_boundary s = 0 then splitlines_from (cur @ [hd s]) (tl s)
      else cur # splitlines_from [] (drop (line_boundary s) s))"
  by pat_completeness auto
termination
  by (relation "measure (\<lambda>(cur, s). length s)") auto

declare splitlines_from.simps [simp del]

definition splitlines :: "string \<Rightarrow> string list" where
  \<comment> \<open>\<^verbatim>\<open>text.splitlines()\<close>: no line for the empty rest after a final boundary\<close>
  "splitlines s = splitlines_from [] s"

section \<open>The table of ported suites\<close>

definition PORTED :: "string set" where
  "PORTED = {
    ''A parser'',
    ''An ord parser'',
    ''A bin parser'',
    ''A rel parser'',
    ''A mathinner parser'',
    ''A punct parser'',
    ''An open parser'',
    ''A close parser'',
    ''A '' @ [BACKSLASH, BACKSLASH] @ ''KaTeX parser'',
    ''A subscript and superscript parser'',
    ''A subscript and superscript tree-builder'',
    ''A parser with limit controls'',
    ''A group parser'',
    ''A supsub left/right nucleus parser'',
    ''An over/underline parser'',
    ''A '' @ [BACKSLASH, BACKSLASH] @ ''begingroup...'' @ [BACKSLASH, BACKSLASH] @ ''endgroup parser'',
    ''An implicit group parser'',
    ''A function parser'',
    ''An over/brace/brack parser'',
    ''A genfrac builder'',
    ''A infix builder'',
    ''A text parser'',
    ''A phantom parser'',
    ''A color parser'',
    ''A kern parser'',
    ''A rule parser'',
    ''A text-mode switch parser'',
    ''An overbrace underbrace parser'',
    ''A text font parser'',
    ''A math font parser'',
    ''A spacing parser'',
    ''A text color parser'',
    ''A delimiter sizing parser'',
    ''A sqrt parser'',
    ''A binom parser'',
    ''A frac parser'',
    ''A left/right parser'',
    ''A matrix parser'',
    ''A phantom sizing parser'',
    ''A rule color parser'',
    ''An accent parser'',
    ''A sizing parser'',
    ''An arrow parser'',
    ''A href parser''}"

section \<open>snakeify\<close>

definition sub_quotes :: "string \<Rightarrow> string" where
  \<comment> \<open>\<^verbatim>\<open>re.sub(r"[\\\"']", " ", name)\<close>\<close>
  "sub_quotes name =
     map (\<lambda>c. if c = BACKSLASH \<or> c = DQUOTE \<or> c = SQUOTE then CHR '' '' else c) name"

function sub_nonalnum :: "string \<Rightarrow> string" where
  \<comment> \<open>\<^verbatim>\<open>re.sub(r"[^a-zA-Z0-9]+", "_", clean)\<close>: scanning from the left, a character of the
      class is kept, and the longest run outside the class becomes one underscore\<close>
  "sub_nonalnum [] = []"
| "sub_nonalnum (c # cs) =
     (if is_alnum c then c # sub_nonalnum cs
      else CHR ''_'' # sub_nonalnum (dropWhile (\<lambda>d. \<not> is_alnum d) cs))"
  by pat_completeness auto
termination
  by (relation "measure length") (auto simp: le_imp_less_Suc length_dropWhile_le)

definition snakeify :: "string \<Rightarrow> string" where
  "snakeify name =
     (let clean = sub_quotes name;
          clean = lower (strip_underscores (sub_nonalnum clean));
          clean = (if clean = [] then ''unknown'' else clean);
          clean = (if \<not> isalpha (hd clean) then ''katex_'' @ clean else clean)
      in clean)"

section \<open>main\<close>

fun match_literal :: "string \<Rightarrow> string \<Rightarrow> string option" where
  \<comment> \<open>the literal part of a pattern, matched at the start of the text; the rest of the text\<close>
  "match_literal [] s = Some s"
| "match_literal (p # ps) [] = None"
| "match_literal (p # ps) (c # cs) = (if p = c then match_literal ps cs else None)"

definition re_match_describe :: "string \<Rightarrow> string option" where
  \<comment> \<open>\<^verbatim>\<open>re.match(r'describe\("([^"]+)', line)\<close>, then \<^verbatim>\<open>m.group(1)\<close>: the literal, then the
      greedy group, which must take one character at least; nothing follows the group, so the
      match never backtracks\<close>
  "re_match_describe line =
     (case match_literal (''describe('' @ [DQUOTE]) line of
        None \<Rightarrow> None
      | Some rest \<Rightarrow>
          (let g = takeWhile (\<lambda>c. c \<noteq> DQUOTE) rest
           in if g = [] then None else Some g))"

text \<open>
  The first loop of \<^verbatim>\<open>main\<close>, over \<^verbatim>\<open>enumerate(contents, 1)\<close>: the list \<^verbatim>\<open>describes\<close> it
  builds. The set of ported titles is a parameter; \<^verbatim>\<open>main\<close> passes the global \<open>PORTED\<close>.
\<close>

fun collect_describes :: "string set \<Rightarrow> nat \<Rightarrow> string list \<Rightarrow> (string \<times> nat) list" where
  "collect_describes ported lineno [] = []"
| "collect_describes ported lineno (line # rest) =
     (case re_match_describe line of
        None \<Rightarrow> collect_describes ported (Suc lineno) rest
      | Some title \<Rightarrow>
          if title \<in> ported then collect_describes ported (Suc lineno) rest
          else (title, lineno) # collect_describes ported (Suc lineno) rest)"

text \<open>
  The second loop. \<^verbatim>\<open>seen\<close> is a \<^verbatim>\<open>Counter\<close>: a dictionary whose missing keys read as 0.
\<close>

type_synonym counter = "string \<rightharpoonup> nat"

definition counter_get :: "counter \<Rightarrow> string \<Rightarrow> nat" where
  "counter_get seen k = (case seen k of None \<Rightarrow> 0 | Some n \<Rightarrow> n)"

type_synonym stub = "string \<times> nat \<times> string"

fun make_stubs :: "counter \<Rightarrow> (string \<times> nat) list \<Rightarrow> stub list" where
  "make_stubs seen [] = []"
| "make_stubs seen ((title, lineno) # rest) =
     (let fn = snakeify title;
          seen = seen(fn \<mapsto> counter_get seen fn + 1);
          fn = (if counter_get seen fn > 1 then fn @ ''_'' @ str_nat (counter_get seen fn) else fn)
      in (title, lineno, fn) # make_stubs seen rest)"

definition stub_title :: "stub \<Rightarrow> string" where "stub_title s = fst s"
definition stub_lineno :: "stub \<Rightarrow> nat" where "stub_lineno s = fst (snd s)"
definition stub_fn :: "stub \<Rightarrow> string" where "stub_fn s = snd (snd s)"

text \<open>The lines \<^verbatim>\<open>out\<close> collects: seven fixed ones, then seven for each stub.\<close>

definition out_header :: "string list" where
  "out_header =
     [''//! Auto-generated placeholders for unported katex-spec.js suites.'',
      ''//! Regenerate via `python aliter/scripts/generate_katex_spec_todos.py`.'',
      '''',
      ''#![allow(clippy::needless_doctest_main)]'',
      '''',
      ''use aliter::*;'',
      '''']"

definition todo_comment :: "string \<Rightarrow> nat \<Rightarrow> string" where
  "todo_comment title lineno =
     ''    // TODO: port '' @ [DQUOTE] @ title @ [DQUOTE] @ '' from katex-spec.js:''
       @ str_nat lineno"

fun stub_block :: "stub \<Rightarrow> string list" where
  \<comment> \<open>the seven lines one turn of the last loop appends\<close>
  "stub_block (title, lineno, fn) =
     [''#[test]'',
      ''#[ignore]'',
      ''fn '' @ fn @ ''() {'',
      todo_comment title lineno,
      ''    todo!('' @ [DQUOTE] @ ''unported katex-spec.js suite'' @ [DQUOTE] @ '');'',
      ''}'',
      '''']"

fun out_stubs :: "stub list \<Rightarrow> string list" where
  "out_stubs [] = []"
| "out_stubs (s # rest) = stub_block s @ out_stubs rest"

definition stubs_of :: "string set \<Rightarrow> string list \<Rightarrow> stub list" where
  "stubs_of ported contents = make_stubs Map.empty (collect_describes ported 1 contents)"

definition out_lines :: "string set \<Rightarrow> string list \<Rightarrow> string list" where
  "out_lines ported contents = out_header @ out_stubs (stubs_of ported contents)"

text \<open>
  The run itself. The world is what \<^verbatim>\<open>main\<close> touches: the text that
  \<^verbatim>\<open>SPEC.read_text(encoding="utf-8")\<close> returns, or nothing when the call raises (the file
  is missing, unreadable or not UTF-8), and what has been written to standard output.
  \<^verbatim>\<open>main\<close> catches nothing, so the exception of \<^verbatim>\<open>read_text\<close> leaves it at once.
\<close>

datatype error = ReadError

record world =
  spec_text :: "string option"
  stdout :: string

definition read_text :: "world \<Rightarrow> error + string" where
  "read_text w = (case spec_text w of None \<Rightarrow> Inl ReadError | Some text \<Rightarrow> Inr text)"

definition print :: "string \<Rightarrow> world \<Rightarrow> world" where
  "print s w = w\<lparr>stdout := stdout w @ s @ [NEWLINE]\<rparr>"

definition main_with :: "string set \<Rightarrow> world \<Rightarrow> (error + unit) \<times> world" where
  "main_with ported w =
     (case read_text w of
        Inl e \<Rightarrow> (Inl e, w)
      | Inr text \<Rightarrow>
          (let contents = splitlines text;
               out = out_lines ported contents
           in (Inr (), print (join [NEWLINE] out) w)))"

definition main :: "world \<Rightarrow> (error + unit) \<times> world" where
  "main w = main_with PORTED w"

definition exit_status :: "error + unit \<Rightarrow> nat" where
  \<comment> \<open>the interpreter's exit status: 1 after an uncaught exception, 0 otherwise\<close>
  "exit_status r = (case r of Inl e \<Rightarrow> 1 | Inr u \<Rightarrow> 0)"

section \<open>Notions of the specification\<close>

text \<open>
  The pattern \<^verbatim>\<open>^[a-z][a-z0-9_]*$\<close> of a valid identifier, read on the whole text (so it is
  not weaker than Python's \<^verbatim>\<open>$\<close>, which also accepts one final line break).
\<close>

definition ident_char :: "char \<Rightarrow> bool" where
  "ident_char c = (is_lower c \<or> is_digit c \<or> c = CHR ''_'')"

fun valid_ident :: "string \<Rightarrow> bool" where
  "valid_ident [] = False"
| "valid_ident (c # cs) = (is_lower c \<and> list_all ident_char cs)"

text \<open>
  The entries of the specification's Extractor, before the filter: one for each line of the
  file that the pattern matches, with its title and its 1-based line number, in file order.
\<close>

definition raw_entries :: "string list \<Rightarrow> (string \<times> nat) list" where
  "raw_entries contents =
     List.map_filter
       (\<lambda>(lineno, line). map_option (\<lambda>title. (title, lineno)) (re_match_describe line))
       (enumerate 1 contents)"

definition stub_entry :: "stub \<Rightarrow> string \<times> nat" where
  \<comment> \<open>the entry a stub comes from: its title and its line number\<close>
  "stub_entry s = (stub_title s, stub_lineno s)"

text \<open>
  The text \<^verbatim>\<open>snakeify\<close> has in \<^verbatim>\<open>clean\<close> after its second assignment, before the
  two fallbacks.
\<close>

definition snake_core :: "string \<Rightarrow> string" where
  "snake_core name = lower (strip_underscores (sub_nonalnum (sub_quotes name)))"

text \<open>
  The 1-based occurrence count of the base identifier of entry \<open>i\<close>: how many of the entries
  \<open>0, \<dots>, i\<close> of the list \<^verbatim>\<open>describes\<close> have the same \<^verbatim>\<open>snakeify\<close> as entry \<open>i\<close>.
\<close>

definition base_count :: "(string \<times> nat) list \<Rightarrow> nat \<Rightarrow> nat" where
  "base_count ds i =
     count_list (map (\<lambda>d. snakeify (fst d)) (take (Suc i) ds)) (snakeify (fst (ds ! i)))"

text \<open>
  Reading a decimal text back: the value of a digit is its place in \<^verbatim>\<open>0123456789\<close>.
\<close>

definition digit_value :: "char \<Rightarrow> nat" where
  "digit_value c = length (takeWhile (\<lambda>d. d \<noteq> c) ''0123456789'')"

definition nat_of_decimal :: "string \<Rightarrow> nat" where
  "nat_of_decimal s = foldl (\<lambda>a c. 10 * a + digit_value c) 0 s"

section \<open>The match of a declaration line\<close>

lemma match_literal_iff: "match_literal p s = Some r \<longleftrightarrow> s = p @ r"
proof (induction p arbitrary: s)
  case Nil
  show ?case by auto
next
  case (Cons a p)
  show ?case by (cases s) (auto simp: Cons.IH)
qed

lemma takeWhile_eq_iff:
  "takeWhile P xs = t \<longleftrightarrow>
     (\<exists>rest. xs = t @ rest \<and> (\<forall>x\<in>set t. P x) \<and> (rest = [] \<or> \<not> P (hd rest)))"
proof
  assume h: "takeWhile P xs = t"
  have "xs = t @ dropWhile P xs" using h by (metis takeWhile_dropWhile_id)
  moreover have "\<forall>x\<in>set t. P x" using h by (auto dest: set_takeWhileD)
  moreover have "dropWhile P xs = [] \<or> \<not> P (hd (dropWhile P xs))"
    using hd_dropWhile [of P xs] by blast
  ultimately show "\<exists>rest. xs = t @ rest \<and> (\<forall>x\<in>set t. P x) \<and> (rest = [] \<or> \<not> P (hd rest))"
    by blast
next
  assume "\<exists>rest. xs = t @ rest \<and> (\<forall>x\<in>set t. P x) \<and> (rest = [] \<or> \<not> P (hd rest))"
  then obtain rest where r: "xs = t @ rest" "\<forall>x\<in>set t. P x" "rest = [] \<or> \<not> P (hd rest)"
    by blast
  have "takeWhile P rest = []" using r(3) by (cases rest) auto
  then show "takeWhile P xs = t" using r(1,2) by (simp add: takeWhile_append2)
qed

lemma re_match_describe_Some:
  "re_match_describe line = Some title \<longleftrightarrow>
     (\<exists>rest. line = ''describe('' @ [DQUOTE] @ title @ rest \<and> title \<noteq> [] \<and>
        DQUOTE \<notin> set title \<and> (rest = [] \<or> hd rest = DQUOTE))"
  (is "?L \<longleftrightarrow> ?R")
proof
  assume ?L
  then obtain r where r: "match_literal (''describe('' @ [DQUOTE]) line = Some r"
    and t: "takeWhile (\<lambda>c. c \<noteq> DQUOTE) r = title" and ne: "title \<noteq> []"
    by (auto simp: re_match_describe_def Let_def split: option.splits if_splits)
  from r have l: "line = (''describe('' @ [DQUOTE]) @ r" by (simp only: match_literal_iff)
  from t obtain rest where "r = title @ rest" "\<forall>x\<in>set title. x \<noteq> DQUOTE"
      "rest = [] \<or> \<not> hd rest \<noteq> DQUOTE"
    unfolding takeWhile_eq_iff by blast
  with l ne show ?R by auto
next
  assume ?R
  then obtain rest where l: "line = (''describe('' @ [DQUOTE]) @ (title @ rest)"
    and ne: "title \<noteq> []" and nq: "DQUOTE \<notin> set title" and e: "rest = [] \<or> hd rest = DQUOTE"
    by auto
  have m: "match_literal (''describe('' @ [DQUOTE]) line = Some (title @ rest)"
    using l by (simp only: match_literal_iff)
  have "takeWhile (\<lambda>c. c \<noteq> DQUOTE) (title @ rest) = title"
    unfolding takeWhile_eq_iff using nq e by auto
  with m ne show ?L by (simp add: re_match_describe_def)
qed

lemma re_match_describe_matches:
  "re_match_describe line \<noteq> None \<longleftrightarrow>
     (\<exists>c rest. line = ''describe('' @ [DQUOTE] @ c # rest \<and> c \<noteq> DQUOTE)"
  (is "?L \<longleftrightarrow> ?R")
proof
  assume ?L
  then obtain t where "re_match_describe line = Some t" by auto
  then obtain rest where l: "line = ''describe('' @ [DQUOTE] @ t @ rest" and ne: "t \<noteq> []"
    and nq: "DQUOTE \<notin> set t"
    unfolding re_match_describe_Some by blast
  from ne obtain c cs where "t = c # cs" by (cases t) auto
  with l nq show ?R by auto
next
  assume ?R
  then obtain c rest where l: "line = (''describe('' @ [DQUOTE]) @ (c # rest)" and c: "c \<noteq> DQUOTE"
    by auto
  have "match_literal (''describe('' @ [DQUOTE]) line = Some (c # rest)"
    using l by (simp only: match_literal_iff)
  with c show ?L by (simp add: re_match_describe_def)
qed

section \<open>The identifier of a title\<close>

lemma sub_nonalnum_chars: "c \<in> set (sub_nonalnum s) \<Longrightarrow> is_alnum c \<or> c = CHR ''_''"
  by (induction s rule: sub_nonalnum.induct) (auto split: if_splits)

lemma set_strip_underscores: "set (strip_underscores s) \<subseteq> set s"
proof -
  have "set (dropWhile (\<lambda>c. c = CHR ''_'') (rev (dropWhile (\<lambda>c. c = CHR ''_'') s)))
          \<subseteq> set (rev (dropWhile (\<lambda>c. c = CHR ''_'') s))"
    by (auto dest: set_dropWhileD)
  also have "\<dots> \<subseteq> set s" by (auto dest: set_dropWhileD)
  finally show ?thesis by (simp add: strip_underscores_def)
qed

lemma last_dropWhile_keep: "dropWhile P xs \<noteq> [] \<Longrightarrow> last (dropWhile P xs) = last xs"
proof (induction xs)
  case Nil
  then show ?case by simp
next
  case (Cons x xs)
  show ?case
  proof (cases "P x")
    case True
    with Cons.prems have ne: "dropWhile P xs \<noteq> []" by simp
    then have "xs \<noteq> []" by auto
    with True Cons.IH [OF ne] show ?thesis by simp
  next
    case False
    then show ?thesis by simp
  qed
qed

lemma hd_strip_underscores:
  assumes "strip_underscores s \<noteq> []"
  shows "hd (strip_underscores s) \<noteq> CHR ''_''"
proof -
  define a where "a = dropWhile (\<lambda>c. c = CHR ''_'') s"
  define b where "b = dropWhile (\<lambda>c. c = CHR ''_'') (rev a)"
  have s: "strip_underscores s = rev b" by (simp add: strip_underscores_def a_def b_def)
  from assms have b: "b \<noteq> []" unfolding s by simp
  have a: "a \<noteq> []"
  proof
    assume "a = []"
    then have "b = []" by (simp add: b_def)
    with b show False by simp
  qed
  have "hd (strip_underscores s) = last b" unfolding s by (rule hd_rev)
  also have "\<dots> = last (rev a)" using b unfolding b_def by (rule last_dropWhile_keep)
  also have "\<dots> = hd a" by (rule last_rev)
  finally have "hd (strip_underscores s) = hd a" .
  moreover have "hd a \<noteq> CHR ''_''" using a hd_dropWhile [of "\<lambda>c. c = CHR ''_''" s]
    unfolding a_def by blast
  ultimately show ?thesis by simp
qed

lemma lower_char_upper: "is_upper c \<Longrightarrow> is_lower (lower_char c)"
  unfolding is_upper_def by (elim disjE | simp add: lower_char_def is_lower_def)+

lemma lower_char_not_upper: "\<not> is_upper c \<Longrightarrow> lower_char c = c"
  by (simp add: is_upper_def lower_char_def)

lemma lower_char_alnum: "is_alnum c \<Longrightarrow> is_lower (lower_char c) \<or> is_digit (lower_char c)"
  by (cases "is_upper c") (auto simp: is_alnum_def lower_char_upper lower_char_not_upper)

lemma lower_char_ident: "is_alnum c \<or> c = CHR ''_'' \<Longrightarrow> ident_char (lower_char c)"
proof (cases "c = CHR ''_''")
  case True
  then show ?thesis by (simp add: ident_char_def lower_char_def)
next
  case False
  assume "is_alnum c \<or> c = CHR ''_''"
  with False have "is_alnum c" by simp
  then show ?thesis using lower_char_alnum [of c] by (auto simp: ident_char_def)
qed

lemma snake_core_chars: "c \<in> set (snake_core name) \<Longrightarrow> ident_char c"
proof -
  assume "c \<in> set (snake_core name)"
  then obtain d where d: "d \<in> set (strip_underscores (sub_nonalnum (sub_quotes name)))"
    and c: "c = lower_char d"
    by (auto simp: snake_core_def lower_def)
  from d have "d \<in> set (sub_nonalnum (sub_quotes name))"
    using set_strip_underscores by blast
  then have "is_alnum d \<or> d = CHR ''_''" by (rule sub_nonalnum_chars)
  then show ?thesis unfolding c by (rule lower_char_ident)
qed

lemma snake_core_first:
  assumes "snake_core name \<noteq> []"
  shows "is_lower (hd (snake_core name)) \<or> is_digit (hd (snake_core name))"
proof -
  let ?s = "strip_underscores (sub_nonalnum (sub_quotes name))"
  from assms have ne: "?s \<noteq> []" by (simp add: snake_core_def lower_def)
  then have "hd ?s \<in> set ?s" by simp
  then have "hd ?s \<in> set (sub_nonalnum (sub_quotes name))"
    using set_strip_underscores by blast
  then have "is_alnum (hd ?s) \<or> hd ?s = CHR ''_''" by (rule sub_nonalnum_chars)
  moreover have "hd ?s \<noteq> CHR ''_''" using ne by (rule hd_strip_underscores)
  ultimately have "is_alnum (hd ?s)" by simp
  then have "is_lower (lower_char (hd ?s)) \<or> is_digit (lower_char (hd ?s))"
    by (rule lower_char_alnum)
  moreover have "hd (snake_core name) = lower_char (hd ?s)"
    using ne by (simp add: snake_core_def lower_def hd_map)
  ultimately show ?thesis by simp
qed

lemma isalpha_unknown: "isalpha (hd ''unknown'')"
  by (simp add: isalpha_def is_lower_def)

lemma snakeify_core:
  "snakeify name =
     (if snake_core name = [] then ''unknown''
      else if isalpha (hd (snake_core name)) then snake_core name
      else ''katex_'' @ snake_core name)"
  unfolding snakeify_def snake_core_def Let_def using isalpha_unknown by simp

lemma valid_ident_iff:
  "valid_ident s \<longleftrightarrow> s \<noteq> [] \<and> is_lower (hd s) \<and> (\<forall>c\<in>set s. ident_char c)"
  by (cases s) (auto simp: list_all_iff ident_char_def)

lemma digit_not_upper: "is_digit c \<Longrightarrow> \<not> is_upper c"
  by (auto simp: is_digit_def is_upper_def)

lemma valid_unknown: "valid_ident ''unknown''"
  by (simp add: is_lower_def ident_char_def)

lemma valid_katex: "valid_ident ''katex_''"
  by (simp add: is_lower_def ident_char_def)

lemma valid_ident_append:
  "valid_ident a \<Longrightarrow> \<forall>c\<in>set b. ident_char c \<Longrightarrow> valid_ident (a @ b)"
  by (cases a) (auto simp: list_all_iff)

lemma snakeify_valid: "valid_ident (snakeify name)"
proof (cases "snake_core name = []")
  case True
  then have "snakeify name = ''unknown''" by (simp add: snakeify_core)
  then show ?thesis by (simp only: valid_unknown)
next
  case False
  note ne = this
  have chars: "\<forall>c\<in>set (snake_core name). ident_char c" using snake_core_chars by blast
  show ?thesis
  proof (cases "isalpha (hd (snake_core name))")
    case True
    have "is_lower (hd (snake_core name))"
      using snake_core_first [OF ne] True digit_not_upper [of "hd (snake_core name)"]
      unfolding isalpha_def by blast
    then have "valid_ident (snake_core name)"
      unfolding valid_ident_iff using ne chars by blast
    moreover have "snakeify name = snake_core name"
      using ne True by (simp add: snakeify_core)
    ultimately show ?thesis by simp
  next
    case False
    have "valid_ident (''katex_'' @ snake_core name)"
      using valid_katex chars by (rule valid_ident_append)
    moreover have "snakeify name = ''katex_'' @ snake_core name"
      using ne False by (simp add: snakeify_core)
    ultimately show ?thesis by simp
  qed
qed

lemma digit_nth: "n < 10 \<Longrightarrow> is_digit (''0123456789'' ! n)"
  unfolding is_digit_def by (rule nth_mem) simp

lemma str_nat_digits: "\<forall>c\<in>set (str_nat n). is_digit c"
proof (induction n rule: str_nat.induct)
  case (1 n)
  show ?case
  proof (cases "n < 10")
    case True
    then show ?thesis using digit_nth [of n] by (simp add: str_nat.simps [of n])
  next
    case False
    have "n mod 10 < 10" by simp
    then have "is_digit (''0123456789'' ! (n mod 10))" by (rule digit_nth)
    with False "1.IH" show ?thesis by (simp add: str_nat.simps [of n])
  qed
qed

lemma suffix_chars: "\<forall>c\<in>set (''_'' @ str_nat n). ident_char c"
  using str_nat_digits [of n] by (auto simp: ident_char_def)

lemma make_stubs_entries:
  "map (\<lambda>s. (stub_title s, stub_lineno s)) (make_stubs seen ds) = ds"
  by (induction ds arbitrary: seen)
     (auto simp: Let_def stub_title_def stub_lineno_def)

lemma length_make_stubs: "length (make_stubs seen ds) = length ds"
  by (induction ds arbitrary: seen) (auto simp: Let_def)

lemma make_stubs_valid: "s \<in> set (make_stubs seen ds) \<Longrightarrow> valid_ident (stub_fn s)"
proof (induction ds arbitrary: seen)
  case Nil
  then show ?case by simp
next
  case (Cons d ds)
  obtain title lineno where d: "d = (title, lineno)" by (cases d)
  have v: "valid_ident (snakeify title)" by (rule snakeify_valid)
  have v2: "valid_ident (snakeify title @ ''_'' @ str_nat k)" for k
    using v suffix_chars by (rule valid_ident_append)
  from Cons.prems Cons.IH v v2 show ?case
    unfolding d by (auto simp: Let_def stub_fn_def split: if_splits)
qed

lemma make_stubs_nth:
  "i < length ds \<Longrightarrow>
   stub_fn (make_stubs seen ds ! i) =
     (let base = snakeify (fst (ds ! i));
          n = counter_get seen base + base_count ds i
      in if n > 1 then base @ ''_'' @ str_nat n else base)"
proof (induction ds arbitrary: seen i)
  case Nil
  then show ?case by simp
next
  case (Cons d ds)
  obtain title lineno where d: "d = (title, lineno)" by (cases d)
  define seen' where "seen' = seen(snakeify title \<mapsto> counter_get seen (snakeify title) + 1)"
  have cg: "counter_get seen' k = counter_get seen k + (if k = snakeify title then 1 else 0)" for k
    by (simp add: seen'_def counter_get_def)
  show ?case
  proof (cases i)
    case 0
    then show ?thesis
      unfolding d by (simp add: Let_def stub_fn_def base_count_def counter_get_def)
  next
    case (Suc j)
    with Cons.prems have j: "j < length ds" by simp
    have step: "stub_fn (make_stubs seen (d # ds) ! i) = stub_fn (make_stubs seen' ds ! j)"
      unfolding d Suc by (simp add: Let_def seen'_def)
    have ih: "stub_fn (make_stubs seen' ds ! j) = (let base = snakeify (fst (ds ! j));
          n = counter_get seen' base + base_count ds j
      in if n > 1 then base @ ''_'' @ str_nat n else base)"
      using j by (rule Cons.IH)
    have cnt: "counter_get seen' (snakeify (fst (ds ! j))) + base_count ds j
        = counter_get seen (snakeify (fst (ds ! j))) + base_count (d # ds) i"
      unfolding d Suc by (simp add: cg base_count_def)
    have nth: "(d # ds) ! i = ds ! j" unfolding Suc by simp
    show ?thesis unfolding step ih nth Let_def cnt ..
  qed
qed

section \<open>The entries and the stubs of a run\<close>

lemma set_map_filter_iff:
  "y \<in> set (List.map_filter f xs) \<longleftrightarrow> (\<exists>x\<in>set xs. f x = Some y)"
  by (induction xs) (auto split: option.splits)

lemma collect_describes_raw:
  "collect_describes ported k lines =
     filter (\<lambda>e. fst e \<notin> ported)
       (List.map_filter
          (\<lambda>(lineno, line). map_option (\<lambda>title. (title, lineno)) (re_match_describe line))
          (enumerate k lines))"
  by (induction lines arbitrary: k) (auto simp: map_filter_simps split: option.splits)

lemma collect_describes_filter:
  "collect_describes ported 1 contents = filter (\<lambda>e. fst e \<notin> ported) (raw_entries contents)"
  unfolding raw_entries_def by (rule collect_describes_raw)

lemma raw_entry_iff:
  "(title, n) \<in> set (raw_entries contents) \<longleftrightarrow>
     1 \<le> n \<and> n \<le> length contents \<and> re_match_describe (contents ! (n - 1)) = Some title"
  (is "?L \<longleftrightarrow> ?R")
proof
  assume ?L
  then show ?R
    unfolding raw_entries_def set_map_filter_iff by (auto simp: in_set_enumerate_eq)
next
  assume r: ?R
  then have "(n, contents ! (n - 1)) \<in> set (enumerate 1 contents)"
    by (auto simp: in_set_enumerate_eq)
  moreover have "(case (n, contents ! (n - 1)) of (lineno, line) \<Rightarrow>
      map_option (\<lambda>title. (title, lineno)) (re_match_describe line)) = Some (title, n)"
    using r by simp
  ultimately show ?L unfolding raw_entries_def set_map_filter_iff by blast
qed

lemma map_filter_enumerate_sorted:
  "sorted_wrt (<) (map snd (List.map_filter
          (\<lambda>(lineno, line). map_option (\<lambda>title. (title, lineno :: nat)) (re_match_describe line))
          (enumerate k lines)))"
proof (induction lines arbitrary: k)
  case Nil
  show ?case by (simp add: map_filter_simps)
next
  case (Cons l ls)
  have later: "k < snd e" if "e \<in> set (List.map_filter
          (\<lambda>(lineno, line). map_option (\<lambda>title. (title, lineno)) (re_match_describe line))
          (enumerate (Suc k) ls))" for e
    using that unfolding set_map_filter_iff by (auto simp: in_set_enumerate_eq)
  show ?case using Cons.IH [of "Suc k"] later
    by (auto simp: map_filter_simps split: option.splits)
qed

lemma raw_entries_sorted: "sorted_wrt (<) (map snd (raw_entries contents))"
  unfolding raw_entries_def by (rule map_filter_enumerate_sorted)

lemma sorted_wrt_map_filter:
  "sorted_wrt (<) (map f xs) \<Longrightarrow> sorted_wrt (<) (map f (filter P xs))"
  by (induction xs) auto

lemma raw_entries_distinct: "distinct (raw_entries contents)"
proof -
  have "distinct (map snd (raw_entries contents))"
    using raw_entries_sorted [of contents] strict_sorted_iff by blast
  then show ?thesis by (simp add: distinct_map)
qed

lemma stubs_of_entries:
  "map stub_entry (stubs_of ported contents) =
     filter (\<lambda>e. fst e \<notin> ported) (raw_entries contents)"
proof -
  have "map stub_entry (stubs_of ported contents) = collect_describes ported 1 contents"
    unfolding stubs_of_def using make_stubs_entries [of Map.empty]
    by (simp add: stub_entry_def [abs_def])
  then show ?thesis by (simp only: collect_describes_filter)
qed

lemma length_stub_block: "length (stub_block s) = 7"
  by (cases s) simp

lemma out_stubs_block:
  "i < length stubs \<Longrightarrow> take 7 (drop (7 * i) (out_stubs stubs)) = stub_block (stubs ! i)"
proof (induction stubs arbitrary: i)
  case Nil
  then show ?case by simp
next
  case (Cons s stubs)
  show ?case
  proof (cases i)
    case 0
    then show ?thesis by (simp add: length_stub_block)
  next
    case (Suc j)
    with Cons.prems have "j < length stubs" by simp
    then have "take 7 (drop (7 * j) (out_stubs stubs)) = stub_block (stubs ! j)"
      by (rule Cons.IH)
    moreover have "7 * i = 7 + 7 * j" using Suc by simp
    ultimately show ?thesis using Suc by (simp add: length_stub_block)
  qed
qed

lemma length_out_stubs: "length (out_stubs stubs) = 7 * length stubs"
  by (induction stubs) (simp_all add: length_stub_block)

lemma length_out_header: "length out_header = 7"
  by (simp add: out_header_def)

lemma out_lines_block:
  "i < length (stubs_of ported contents) \<Longrightarrow>
   take 7 (drop (7 + 7 * i) (out_lines ported contents)) = stub_block (stubs_of ported contents ! i)"
  unfolding out_lines_def
  by (simp add: length_out_header out_stubs_block)

lemma stubs_of_linenos_sorted:
  "sorted_wrt (<) (map stub_lineno (stubs_of ported contents))"
proof -
  have "map stub_lineno (stubs_of ported contents) = map snd (map stub_entry (stubs_of ported contents))"
    by (simp add: stub_entry_def)
  also have "\<dots> = map snd (filter (\<lambda>e. fst e \<notin> ported) (raw_entries contents))"
    by (simp only: stubs_of_entries)
  finally show ?thesis
    using sorted_wrt_map_filter [OF raw_entries_sorted] by simp
qed


lemma main_with_error:
  "spec_text w = None \<Longrightarrow> main_with ported w = (Inl ReadError, w)"
  by (simp add: main_with_def read_text_def)

lemma count_list_distinct:
  "distinct xs \<Longrightarrow> count_list xs e = (if e \<in> set xs then 1 else 0)"
  by (induction xs) auto

lemma count_list_filter_distinct:
  assumes "distinct xs" and "e \<in> set xs"
  shows "count_list (filter P xs) e = (if P e then 1 else 0)"
proof -
  have "distinct (filter P xs)" using assms(1) by simp
  then have "count_list (filter P xs) e = (if e \<in> set (filter P xs) then 1 else 0)"
    by (rule count_list_distinct)
  with assms(2) show ?thesis by simp
qed

lemma index_of_nth:
  assumes "distinct xs" and "n < length xs"
  shows "length (takeWhile (\<lambda>d. d \<noteq> xs ! n) xs) = n"
proof -
  have "takeWhile (\<lambda>d. d \<noteq> xs ! n) xs = take n xs"
  proof (rule takeWhile_eq_take_P_nth)
    fix i assume "i < n" and "i < length xs"
    with assms show "xs ! i \<noteq> xs ! n" by (auto simp: nth_eq_iff_index_eq)
  next
    assume "n < length xs"
    show "\<not> xs ! n \<noteq> xs ! n" by simp
  qed
  with assms(2) show ?thesis by simp
qed

lemma digit_value_nth: "n < 10 \<Longrightarrow> digit_value (''0123456789'' ! n) = n"
  unfolding digit_value_def by (rule index_of_nth) simp_all

lemma nat_of_decimal_str_nat: "nat_of_decimal (str_nat n) = n"
proof (induction n rule: str_nat.induct)
  case (1 n)
  show ?case
  proof (cases "n < 10")
    case True
    then show ?thesis
      by (simp add: str_nat.simps [of n] nat_of_decimal_def digit_value_nth)
  next
    case False
    then have ih: "nat_of_decimal (str_nat (n div 10)) = n div 10" by (rule "1.IH")
    have "n mod 10 < 10" by simp
    then have dv: "digit_value (''0123456789'' ! (n mod 10)) = n mod 10" by (rule digit_value_nth)
    have "nat_of_decimal (str_nat n) =
        10 * nat_of_decimal (str_nat (n div 10)) + digit_value (''0123456789'' ! (n mod 10))"
      using False by (simp add: str_nat.simps [of n] nat_of_decimal_def)
    then show ?thesis unfolding ih dv by simp
  qed
qed

section \<open>The claims\<close>

text \<open>
  Claim C1. The claim says that the identifiers of one run are pairwise distinct. The code
  misses a case: the suffix \<^verbatim>\<open>_N\<close> of a repeated base identifier can be the base identifier of
  another title. On the file with the three declarations \<^verbatim>\<open>A foo\<close>, \<^verbatim>\<open>A foo\<close>, \<^verbatim>\<open>A foo 2\<close> the
  run names the second and the third stub \<^verbatim>\<open>a_foo_2\<close> both.
\<close>

theorem identifiers_collide:
  "map stub_fn (stubs_of PORTED (splitlines
      (''describe('' @ [DQUOTE] @ ''A foo'' @ [DQUOTE] @ '', function() {'' @ [NEWLINE] @
       ''describe('' @ [DQUOTE] @ ''A foo'' @ [DQUOTE] @ '', function() {'' @ [NEWLINE] @
       ''describe('' @ [DQUOTE] @ ''A foo 2'' @ [DQUOTE] @ '', function() {'' @ [NEWLINE])))
     = [''a_foo'', ''a_foo_2'', ''a_foo_2''] \<and>
   \<not> distinct (map stub_fn (stubs_of PORTED (splitlines
      (''describe('' @ [DQUOTE] @ ''A foo'' @ [DQUOTE] @ '', function() {'' @ [NEWLINE] @
       ''describe('' @ [DQUOTE] @ ''A foo'' @ [DQUOTE] @ '', function() {'' @ [NEWLINE] @
       ''describe('' @ [DQUOTE] @ ''A foo 2'' @ [DQUOTE] @ '', function() {'' @ [NEWLINE]))))"
proof -
  have e: "map stub_fn (stubs_of PORTED (splitlines
      (''describe('' @ [DQUOTE] @ ''A foo'' @ [DQUOTE] @ '', function() {'' @ [NEWLINE] @
       ''describe('' @ [DQUOTE] @ ''A foo'' @ [DQUOTE] @ '', function() {'' @ [NEWLINE] @
       ''describe('' @ [DQUOTE] @ ''A foo 2'' @ [DQUOTE] @ '', function() {'' @ [NEWLINE])))
     = [''a_foo'', ''a_foo_2'', ''a_foo_2'']"
    by code_simp
  show ?thesis unfolding e by simp
qed

text \<open>
  Claim C2. The function name of every stub of a run, after the collision suffix, matches
  \<^verbatim>\<open>^[a-z][a-z0-9_]*$\<close>.
\<close>

theorem identifiers_valid:
  "s \<in> set (stubs_of ported contents) \<Longrightarrow> valid_ident (stub_fn s)"
  unfolding stubs_of_def by (rule make_stubs_valid)

theorem identifiers_valid_witness:
  "(''3D parser'', 1, ''katex_3d_parser'')
     \<in> set (stubs_of PORTED [''describe('' @ [DQUOTE] @ ''3D parser'' @ [DQUOTE] @ '', f)'']) \<and>
   valid_ident (stub_fn (''3D parser'', 1, ''katex_3d_parser''))"
proof -
  have m: "(''3D parser'', 1, ''katex_3d_parser'')
     \<in> set (stubs_of PORTED [''describe('' @ [DQUOTE] @ ''3D parser'' @ [DQUOTE] @ '', f)''])"
    by code_simp
  from m identifiers_valid [OF m] show ?thesis ..
qed

text \<open>
  Claim C3. In a run, let \<open>n\<close> be the 1-based occurrence count of the base identifier of
  the \<open>i\<close>-th surviving entry among the surviving entries up to it. The first occurrence
  (\<open>n = 1\<close>) keeps the base identifier, and the \<open>n\<close>-th occurrence gets \<^verbatim>\<open>_n\<close> appended. The
  witness is the scenario of two entries with base \<^verbatim>\<open>foo\<close>: \<^verbatim>\<open>foo\<close>, then \<^verbatim>\<open>foo_2\<close>.
\<close>

theorem suffix_by_occurrence:
  assumes "ds = collect_describes ported 1 contents" and "i < length ds"
  shows "1 \<le> base_count ds i \<and>
         stub_fn (stubs_of ported contents ! i) =
           (if base_count ds i = 1 then snakeify (fst (ds ! i))
            else snakeify (fst (ds ! i)) @ ''_'' @ str_nat (base_count ds i))"
proof -
  have pos: "1 \<le> base_count ds i"
    using assms(2) by (simp add: base_count_def take_Suc_conv_app_nth)
  have "stub_fn (stubs_of ported contents ! i) =
     (let base = snakeify (fst (ds ! i));
          n = counter_get Map.empty base + base_count ds i
      in if n > 1 then base @ ''_'' @ str_nat n else base)"
    unfolding stubs_of_def assms(1) [symmetric] using assms(2) by (rule make_stubs_nth)
  with pos show ?thesis by (auto simp: Let_def counter_get_def)
qed

theorem suffix_by_occurrence_witness:
  "stub_fn (stubs_of PORTED [''describe('' @ [DQUOTE] @ ''foo'' @ [DQUOTE] @ '', f)'',
                             ''describe('' @ [DQUOTE] @ ''Foo!'' @ [DQUOTE] @ '', g)''] ! 0) = ''foo'' \<and>
   stub_fn (stubs_of PORTED [''describe('' @ [DQUOTE] @ ''foo'' @ [DQUOTE] @ '', f)'',
                             ''describe('' @ [DQUOTE] @ ''Foo!'' @ [DQUOTE] @ '', g)''] ! 1) = ''foo_2''"
proof -
  let ?c = "[''describe('' @ [DQUOTE] @ ''foo'' @ [DQUOTE] @ '', f)'',
             ''describe('' @ [DQUOTE] @ ''Foo!'' @ [DQUOTE] @ '', g)'']"
  let ?ds = "[(''foo'', 1::nat), (''Foo!'', 2)]"
  have ds: "?ds = collect_describes PORTED 1 ?c" by code_simp
  have l0: "0 < length ?ds" and l1: "1 < length ?ds" by simp_all
  have r0: "(if base_count ?ds 0 = 1 then snakeify (fst (?ds ! 0))
             else snakeify (fst (?ds ! 0)) @ ''_'' @ str_nat (base_count ?ds 0)) = ''foo''"
    by code_simp
  have r1: "(if base_count ?ds 1 = 1 then snakeify (fst (?ds ! 1))
             else snakeify (fst (?ds ! 1)) @ ''_'' @ str_nat (base_count ?ds 1)) = ''foo_2''"
    by code_simp
  from suffix_by_occurrence [OF ds l0] have a: "stub_fn (stubs_of PORTED ?c ! 0) = ''foo''"
    unfolding r0 by (rule conjunct2)
  from suffix_by_occurrence [OF ds l1] have b: "stub_fn (stubs_of PORTED ?c ! 1) = ''foo_2''"
    unfolding r1 by (rule conjunct2)
  from a b show ?thesis ..
qed

text \<open>
  Claim C4. The stubs of a run, read as entries (title and line number), are the extracted
  entries whose title is not in the ported set, in the same order; so an extracted entry
  with a ported title has no stub and every other extracted entry has exactly one. The test
  is membership of the title as it stands: in the witness \<^verbatim>\<open>A parser\<close> is filtered, while
  \<^verbatim>\<open>a parser\<close> and \<^verbatim>\<open>A parser\<close> with a space after it are not.
\<close>

theorem filter_correct:
  "map stub_entry (stubs_of ported contents)
     = filter (\<lambda>e. fst e \<notin> ported) (raw_entries contents) \<and>
   (\<forall>e\<in>set (raw_entries contents).
      count_list (map stub_entry (stubs_of ported contents)) e = (if fst e \<in> ported then 0 else 1))"
proof
  show "map stub_entry (stubs_of ported contents)
     = filter (\<lambda>e. fst e \<notin> ported) (raw_entries contents)"
    by (rule stubs_of_entries)
  show "\<forall>e\<in>set (raw_entries contents).
      count_list (map stub_entry (stubs_of ported contents)) e = (if fst e \<in> ported then 0 else 1)"
  proof
    fix e
    assume "e \<in> set (raw_entries contents)"
    with raw_entries_distinct
    have "count_list (filter (\<lambda>e. fst e \<notin> ported) (raw_entries contents)) e
            = (if fst e \<notin> ported then 1 else 0)"
      by (rule count_list_filter_distinct)
    then show "count_list (map stub_entry (stubs_of ported contents)) e
            = (if fst e \<in> ported then 0 else 1)"
      by (simp add: stubs_of_entries)
  qed
qed

theorem filter_correct_witness:
  "raw_entries
      [''describe('' @ [DQUOTE] @ ''A parser'' @ [DQUOTE] @ '', f)'',
       ''describe('' @ [DQUOTE] @ ''a parser'' @ [DQUOTE] @ '', f)'',
       ''describe('' @ [DQUOTE] @ ''A parser '' @ [DQUOTE] @ '', f)'']
     = [(''A parser'', 1), (''a parser'', 2), (''A parser '', 3)] \<and>
   count_list (map stub_entry (stubs_of PORTED
      [''describe('' @ [DQUOTE] @ ''A parser'' @ [DQUOTE] @ '', f)'',
       ''describe('' @ [DQUOTE] @ ''a parser'' @ [DQUOTE] @ '', f)'',
       ''describe('' @ [DQUOTE] @ ''A parser '' @ [DQUOTE] @ '', f)''])) (''A parser'', 1) = 0 \<and>
   count_list (map stub_entry (stubs_of PORTED
      [''describe('' @ [DQUOTE] @ ''A parser'' @ [DQUOTE] @ '', f)'',
       ''describe('' @ [DQUOTE] @ ''a parser'' @ [DQUOTE] @ '', f)'',
       ''describe('' @ [DQUOTE] @ ''A parser '' @ [DQUOTE] @ '', f)''])) (''a parser'', 2) = 1 \<and>
   count_list (map stub_entry (stubs_of PORTED
      [''describe('' @ [DQUOTE] @ ''A parser'' @ [DQUOTE] @ '', f)'',
       ''describe('' @ [DQUOTE] @ ''a parser'' @ [DQUOTE] @ '', f)'',
       ''describe('' @ [DQUOTE] @ ''A parser '' @ [DQUOTE] @ '', f)''])) (''A parser '', 3) = 1"
proof -
  let ?c = "[''describe('' @ [DQUOTE] @ ''A parser'' @ [DQUOTE] @ '', f)'',
       ''describe('' @ [DQUOTE] @ ''a parser'' @ [DQUOTE] @ '', f)'',
       ''describe('' @ [DQUOTE] @ ''A parser '' @ [DQUOTE] @ '', f)'']"
  have r: "raw_entries ?c = [(''A parser'', 1), (''a parser'', 2), (''A parser '', 3)]"
    by code_simp
  have m1: "(''A parser'', 1) \<in> set (raw_entries ?c)" unfolding r by simp
  have m2: "(''a parser'', 2) \<in> set (raw_entries ?c)" unfolding r by simp
  have m3: "(''A parser '', 3) \<in> set (raw_entries ?c)" unfolding r by simp
  have p1: "fst (''A parser'', 1::nat) \<in> PORTED" by code_simp
  have p2: "fst (''a parser'', 2::nat) \<notin> PORTED" by code_simp
  have p3: "fst (''A parser '', 3::nat) \<notin> PORTED" by code_simp
  have all: "\<forall>e\<in>set (raw_entries ?c).
      count_list (map stub_entry (stubs_of PORTED ?c)) e = (if fst e \<in> PORTED then 0 else 1)"
    using filter_correct [of PORTED ?c] by (rule conjunct2)
  have c1: "count_list (map stub_entry (stubs_of PORTED ?c)) (''A parser'', 1) = 0"
    using bspec [OF all m1] p1 by (simp only: if_True)
  have c2: "count_list (map stub_entry (stubs_of PORTED ?c)) (''a parser'', 2) = 1"
    using bspec [OF all m2] p2 by (simp only: if_False)
  have c3: "count_list (map stub_entry (stubs_of PORTED ?c)) (''A parser '', 3) = 1"
    using bspec [OF all m3] p3 by (simp only: if_False)
  from r c1 c2 c3 show ?thesis by blast
qed

text \<open>
  Claim C5. The block of the \<open>i\<close>-th stub is the seven lines of the output from line
  \<open>7 + 7 * i\<close> on (counted from 0). Its body has the comment with the title of the stub
  between double quotes and the decimal text of its line number, which reads back as that
  number; and the line of the file with that 1-based number is the one the pattern matched
  with that title.
\<close>

theorem traceability:
  assumes "i < length (stubs_of ported contents)"
    and "stubs_of ported contents ! i = (title, lineno, fn)"
  shows "take 7 (drop (7 + 7 * i) (out_lines ported contents)) =
           [''#[test]'',
            ''#[ignore]'',
            ''fn '' @ fn @ ''() {'',
            ''    // TODO: port '' @ [DQUOTE] @ title @ [DQUOTE] @ '' from katex-spec.js:''
              @ str_nat lineno,
            ''    todo!('' @ [DQUOTE] @ ''unported katex-spec.js suite'' @ [DQUOTE] @ '');'',
            ''}'',
            ''''] \<and>
         1 \<le> lineno \<and> lineno \<le> length contents \<and>
         re_match_describe (contents ! (lineno - 1)) = Some title \<and>
         nat_of_decimal (str_nat lineno) = lineno"
proof
  show "take 7 (drop (7 + 7 * i) (out_lines ported contents)) =
           [''#[test]'',
            ''#[ignore]'',
            ''fn '' @ fn @ ''() {'',
            ''    // TODO: port '' @ [DQUOTE] @ title @ [DQUOTE] @ '' from katex-spec.js:''
              @ str_nat lineno,
            ''    todo!('' @ [DQUOTE] @ ''unported katex-spec.js suite'' @ [DQUOTE] @ '');'',
            ''}'',
            '''']"
    unfolding out_lines_block [OF assms(1)] assms(2) by (simp add: todo_comment_def)
  have "stub_entry (stubs_of ported contents ! i) \<in> set (map stub_entry (stubs_of ported contents))"
    using assms(1) by simp
  then have "(title, lineno) \<in> set (filter (\<lambda>e. fst e \<notin> ported) (raw_entries contents))"
    unfolding stubs_of_entries assms(2)
    by (simp add: stub_entry_def stub_title_def stub_lineno_def)
  then have "(title, lineno) \<in> set (raw_entries contents)" by simp
  then show "1 \<le> lineno \<and> lineno \<le> length contents \<and>
         re_match_describe (contents ! (lineno - 1)) = Some title \<and>
         nat_of_decimal (str_nat lineno) = lineno"
    by (simp add: raw_entry_iff nat_of_decimal_str_nat)
qed

theorem traceability_witness:
  "0 < length (stubs_of PORTED
     (replicate 41 [] @ [''describe('' @ [DQUOTE] @ ''A weird, Title!'' @ [DQUOTE] @ '', ...)''])) \<and>
   stubs_of PORTED
     (replicate 41 [] @ [''describe('' @ [DQUOTE] @ ''A weird, Title!'' @ [DQUOTE] @ '', ...)'']) ! 0
     = (''A weird, Title!'', 42, ''a_weird_title'') \<and>
   take 7 (drop (7 + 7 * 0) (out_lines PORTED
     (replicate 41 [] @ [''describe('' @ [DQUOTE] @ ''A weird, Title!'' @ [DQUOTE] @ '', ...)''])))
     = [''#[test]'',
        ''#[ignore]'',
        ''fn a_weird_title() {'',
        ''    // TODO: port '' @ [DQUOTE] @ ''A weird, Title!'' @ [DQUOTE]
          @ '' from katex-spec.js:42'',
        ''    todo!('' @ [DQUOTE] @ ''unported katex-spec.js suite'' @ [DQUOTE] @ '');'',
        ''}'',
        ''''] \<and>
   re_match_describe
     ((replicate 41 [] @ [''describe('' @ [DQUOTE] @ ''A weird, Title!'' @ [DQUOTE] @ '', ...)''])
        ! (42 - 1)) = Some ''A weird, Title!''"
proof -
  let ?c = "replicate 41 [] @ [''describe('' @ [DQUOTE] @ ''A weird, Title!'' @ [DQUOTE] @ '', ...)'']"
  have s: "stubs_of PORTED ?c = [(''A weird, Title!'', 42, ''a_weird_title'')]" by code_simp
  have l: "0 < length (stubs_of PORTED ?c)" unfolding s by simp
  have n: "stubs_of PORTED ?c ! 0 = (''A weird, Title!'', 42, ''a_weird_title'')"
    unfolding s by simp
  have d: "str_nat 42 = ''42''" by code_simp
  from traceability [OF l n] have
    "take 7 (drop (7 + 7 * 0) (out_lines PORTED ?c))
       = [''#[test]'',
        ''#[ignore]'',
        ''fn a_weird_title() {'',
        ''    // TODO: port '' @ [DQUOTE] @ ''A weird, Title!'' @ [DQUOTE]
          @ '' from katex-spec.js:42'',
        ''    todo!('' @ [DQUOTE] @ ''unported katex-spec.js suite'' @ [DQUOTE] @ '');'',
        ''}'',
        '''']"
    and "re_match_describe (?c ! (42 - 1)) = Some ''A weird, Title!''"
    unfolding d by simp_all
  with l n show ?thesis by blast
qed


text \<open>
  Claim C7. Of two stubs of a run, the earlier one comes from the smaller line number, and
  the blocks of the output stand in the order of the stubs: the block of the \<open>i\<close>-th stub is
  at the lines from \<open>7 + 7 * i\<close> on, and the output has nothing but the header and these blocks.
\<close>

theorem stubs_in_file_order:
  assumes "i < j" and "j < length (stubs_of ported contents)"
  shows "stub_lineno (stubs_of ported contents ! i) < stub_lineno (stubs_of ported contents ! j) \<and>
         take 7 (drop (7 + 7 * i) (out_lines ported contents))
           = stub_block (stubs_of ported contents ! i) \<and>
         take 7 (drop (7 + 7 * j) (out_lines ported contents))
           = stub_block (stubs_of ported contents ! j) \<and>
         length (out_lines ported contents) = 7 + 7 * length (stubs_of ported contents)"
proof (intro conjI)
  from assms have i: "i < length (stubs_of ported contents)" by simp
  have "j < length (map stub_lineno (stubs_of ported contents))" using assms(2) by simp
  with stubs_of_linenos_sorted assms(1)
  have "map stub_lineno (stubs_of ported contents) ! i < map stub_lineno (stubs_of ported contents) ! j"
    by (rule sorted_wrt_nth_less)
  then show "stub_lineno (stubs_of ported contents ! i) < stub_lineno (stubs_of ported contents ! j)"
    using i assms(2) by simp
  show "take 7 (drop (7 + 7 * i) (out_lines ported contents))
           = stub_block (stubs_of ported contents ! i)"
    using i by (rule out_lines_block)
  show "take 7 (drop (7 + 7 * j) (out_lines ported contents))
           = stub_block (stubs_of ported contents ! j)"
    using assms(2) by (rule out_lines_block)
  show "length (out_lines ported contents) = 7 + 7 * length (stubs_of ported contents)"
    by (simp add: out_lines_def length_out_header length_out_stubs)
qed

theorem stubs_in_file_order_witness:
  "(0::nat) < 1 \<and>
   1 < length (stubs_of PORTED
     [''describe('' @ [DQUOTE] @ ''b'' @ [DQUOTE] @ '', f)'', ''});'',
      ''describe('' @ [DQUOTE] @ ''a'' @ [DQUOTE] @ '', f)'']) \<and>
   stub_lineno (stubs_of PORTED
     [''describe('' @ [DQUOTE] @ ''b'' @ [DQUOTE] @ '', f)'', ''});'',
      ''describe('' @ [DQUOTE] @ ''a'' @ [DQUOTE] @ '', f)''] ! 0)
   < stub_lineno (stubs_of PORTED
     [''describe('' @ [DQUOTE] @ ''b'' @ [DQUOTE] @ '', f)'', ''});'',
      ''describe('' @ [DQUOTE] @ ''a'' @ [DQUOTE] @ '', f)''] ! 1) \<and>
   stubs_of PORTED
     [''describe('' @ [DQUOTE] @ ''b'' @ [DQUOTE] @ '', f)'', ''});'',
      ''describe('' @ [DQUOTE] @ ''a'' @ [DQUOTE] @ '', f)'']
     = [(''b'', 1, ''b''), (''a'', 3, ''a'')]"
proof -
  let ?c = "[''describe('' @ [DQUOTE] @ ''b'' @ [DQUOTE] @ '', f)'', ''});'',
      ''describe('' @ [DQUOTE] @ ''a'' @ [DQUOTE] @ '', f)'']"
  have s: "stubs_of PORTED ?c = [(''b'', 1, ''b''), (''a'', 3, ''a'')]" by code_simp
  have ij: "(0::nat) < 1" by simp
  have l: "1 < length (stubs_of PORTED ?c)" unfolding s by simp
  from stubs_in_file_order [OF ij l]
  have "stub_lineno (stubs_of PORTED ?c ! 0) < stub_lineno (stubs_of PORTED ?c ! 1)"
    by (rule conjunct1)
  with ij l s show ?thesis by blast
qed

text \<open>
  Claim C8. When the file cannot be read, \<^verbatim>\<open>main\<close> ends with the error, the exit status is
  not zero, and standard output is what it was before: nothing has been written.
\<close>

theorem read_failure_aborts:
  assumes "spec_text w = None"
  shows "main w = (Inl ReadError, w) \<and> exit_status (fst (main w)) \<noteq> 0 \<and>
         stdout (snd (main w)) = stdout w"
  using assms by (simp add: main_def main_with_error exit_status_def)

theorem read_failure_aborts_witness:
  "spec_text \<lparr>spec_text = None, stdout = ''earlier output''\<rparr> = None \<and>
   main \<lparr>spec_text = None, stdout = ''earlier output''\<rparr>
     = (Inl ReadError, \<lparr>spec_text = None, stdout = ''earlier output''\<rparr>) \<and>
   exit_status (fst (main \<lparr>spec_text = None, stdout = ''earlier output''\<rparr>)) \<noteq> 0 \<and>
   stdout (snd (main \<lparr>spec_text = None, stdout = ''earlier output''\<rparr>)) = ''earlier output''"
proof -
  have h: "spec_text \<lparr>spec_text = None, stdout = ''earlier output''\<rparr> = None" by simp
  from read_failure_aborts [OF h] h show ?thesis by (simp add: exit_status_def)
qed



text \<open>
  Claim C10. A line gives an entry exactly when it starts with \<^verbatim>\<open>describe("\<close> followed by a
  character other than the double quote, and the title is the longest run of such characters
  after the prefix: it is not empty, holds no double quote, and ends at the end of the line or
  before a double quote. So \<^verbatim>\<open>describe("")\<close> gives no entry, a line without closing quote or
  parenthesis gives one, and a title with an escaped quote is cut before that quote.
\<close>

theorem describe_line_match:
  "(re_match_describe line \<noteq> None \<longleftrightarrow>
      (\<exists>c rest. line = ''describe('' @ [DQUOTE] @ c # rest \<and> c \<noteq> DQUOTE)) \<and>
   (re_match_describe line = Some title \<longleftrightarrow>
      (\<exists>rest. line = ''describe('' @ [DQUOTE] @ title @ rest \<and> title \<noteq> [] \<and>
         DQUOTE \<notin> set title \<and> (rest = [] \<or> hd rest = DQUOTE))) \<and>
   re_match_describe (''describe('' @ [DQUOTE, DQUOTE] @ '')'') = None \<and>
   re_match_describe (''describe('' @ [DQUOTE] @ ''abc'') = Some ''abc'' \<and>
   re_match_describe (''describe('' @ [DQUOTE] @ ''a '' @ [BACKSLASH, DQUOTE] @ ''b''
        @ [BACKSLASH, DQUOTE] @ '' c'' @ [DQUOTE] @ '', f)'') = Some (''a '' @ [BACKSLASH])"
proof (intro conjI)
  show "re_match_describe (''describe('' @ [DQUOTE, DQUOTE] @ '')'') = None"
    by code_simp
  show "re_match_describe (''describe('' @ [DQUOTE] @ ''abc'') = Some ''abc''"
    by code_simp
  show "re_match_describe (''describe('' @ [DQUOTE] @ ''a '' @ [BACKSLASH, DQUOTE] @ ''b''
        @ [BACKSLASH, DQUOTE] @ '' c'' @ [DQUOTE] @ '', f)'') = Some (''a '' @ [BACKSLASH])"
    by code_simp
qed (rule re_match_describe_matches, rule re_match_describe_Some)

theorem describe_line_match_witness:
  "re_match_describe (''describe('' @ [DQUOTE] @ ''A parser'' @ [DQUOTE] @ '', function() {'')
     = Some ''A parser'' \<and>
   (\<exists>rest. ''describe('' @ [DQUOTE] @ ''A parser'' @ [DQUOTE] @ '', function() {''
        = ''describe('' @ [DQUOTE] @ ''A parser'' @ rest \<and>
      ''A parser'' \<noteq> [] \<and> DQUOTE \<notin> set ''A parser'' \<and> (rest = [] \<or> hd rest = DQUOTE))"
proof -
  have m: "re_match_describe (''describe('' @ [DQUOTE] @ ''A parser'' @ [DQUOTE] @ '', function() {'')
     = Some ''A parser''"
    by code_simp
  with describe_line_match
    [of "''describe('' @ [DQUOTE] @ ''A parser'' @ [DQUOTE] @ '', function() {''" "''A parser''"]
  show ?thesis by blast
qed

end
